theory Spec2Isabelle
  imports Main "HOL-Library.Word"
begin

section \<open>Settings of key.cpp\<close>

type_synonym u8 = "8 word"
type_synonym u16 = "16 word"
type_synonym u32 = "32 word"

text \<open>Number of switches and the debounce window (key.cpp, lines 6 and 8).\<close>

definition N :: nat where
  "N = 5"

definition DEBOUNCE_MS :: u32 where
  "DEBOUNCE_MS = 30"

text \<open>
  Logic levels as \<open>digitalRead\<close> returns them: \<open>LOW\<close> is 0 and \<open>HIGH\<close> is 1. The array
  \<open>lastStable\<close> is a \<open>bool\<close> array, so a level is a \<open>bool\<close> and \<open>HIGH\<close> is \<open>True\<close>.
\<close>

definition LOW :: bool where
  "LOW = False"

definition HIGH :: bool where
  "HIGH = True"

text \<open>
  Key bindings (lines 11 to 21). The \<open>HID_KEY_*\<close> macros come from the TinyUSB header;
  their values are the usage codes of the USB HID keyboard page.
\<close>

definition HID_KEY_A :: u8 where "HID_KEY_A = 0x04"
definition HID_KEY_D :: u8 where "HID_KEY_D = 0x07"
definition HID_KEY_J :: u8 where "HID_KEY_J = 0x0D"
definition HID_KEY_K :: u8 where "HID_KEY_K = 0x0E"
definition HID_KEY_M :: u8 where "HID_KEY_M = 0x10"
definition HID_KEY_N :: u8 where "HID_KEY_N = 0x11"
definition HID_KEY_S :: u8 where "HID_KEY_S = 0x16"
definition HID_KEY_W :: u8 where "HID_KEY_W = 0x1A"
definition HID_KEY_SEMICOLON :: u8 where "HID_KEY_SEMICOLON = 0x33"
definition HID_KEY_COMMA :: u8 where "HID_KEY_COMMA = 0x36"

definition KEY_UP :: u8 where "KEY_UP = HID_KEY_W"
definition KEY_LEFT :: u8 where "KEY_LEFT = HID_KEY_A"
definition KEY_DOWN :: u8 where "KEY_DOWN = HID_KEY_S"
definition KEY_RIGHT :: u8 where "KEY_RIGHT = HID_KEY_D"

definition LP :: u8 where "LP = HID_KEY_J"
definition MP :: u8 where "MP = HID_KEY_K"
definition HP :: u8 where "HP = HID_KEY_SEMICOLON"
definition LK :: u8 where "LK = HID_KEY_N"
definition MK :: u8 where "MK = HID_KEY_M"
definition HK :: u8 where "HK = HID_KEY_COMMA"

text \<open>The anonymous enum of line 24: which switch triggers which move.\<close>

definition BTN_HADOU :: nat where "BTN_HADOU = 0"
definition BTN_SHORYU :: nat where "BTN_SHORYU = 1"
definition BTN_TATSU :: nat where "BTN_TATSU = 2"
definition BTN_TOGGLE_FACE :: nat where "BTN_TOGGLE_FACE = 3"

text \<open>Timings in milliseconds (lines 27 to 29).\<close>

definition STEP :: u16 where "STEP = 28"
definition TAP :: u16 where "TAP = 22"
definition GAP :: u16 where "GAP = 16"

section \<open>State and effects\<close>

text \<open>
  What the firmware does to the outside world, in the order it does it: a keyboard report
  (\<open>usb_hid.keyboardReport(report_id, modifier, keycode[6])\<close>), a release of all keys
  (\<open>usb_hid.keyboardRelease(report_id)\<close>), or a blocking \<open>delay(ms)\<close>.
\<close>

datatype event =
  KeyboardReport u8 u8 "u8 list"
  | KeyboardRelease u8
  | Delay nat

text \<open>
  The global variables of lines 36 to 42, and the environment: \<open>hid_ready k\<close> is the answer
  of the transport to the \<open>k\<close>-th call of \<open>usb_hid.ready()\<close>, \<open>ready_calls\<close> counts the
  calls made so far, and \<open>out\<close> is the trace of events, oldest first.
\<close>

record state =
  lastStable :: "bool list"
  debouncing :: "bool list"
  lastChangeMs :: "u32 list"
  facingRight :: bool
  hid_ready :: "nat \<Rightarrow> bool"
  ready_calls :: nat
  out :: "event list"

section \<open>HID utilities\<close>

definition ready :: "state \<Rightarrow> bool \<times> state" where
  "ready s = (hid_ready s (ready_calls s), s\<lparr>ready_calls := Suc (ready_calls s)\<rparr>)"

definition delay :: "u32 \<Rightarrow> state \<Rightarrow> state" where
  "delay ms s = s\<lparr>out := out s @ [Delay (unat ms)]\<rparr>"

text \<open>
  \<open>sendKeys\<close> (lines 47 to 52): nothing is sent when the transport is not ready; otherwise
  the first \<open>min count 6\<close> keys are copied into a zeroed array of six and reported with
  report id 1 and no modifier.
\<close>

definition sendKeys :: "u8 list \<Rightarrow> u8 \<Rightarrow> state \<Rightarrow> state" where
  "sendKeys keys count s =
     (let (r, s1) = ready s in
      if \<not> r then s1
      else
        let kc = map (\<lambda>i. if i < unat count then keys ! i else 0) [0..<6]
        in s1\<lparr>out := out s1 @ [KeyboardReport 1 0 kc]\<rparr>)"

definition releaseAll :: "state \<Rightarrow> state" where
  "releaseAll s =
     (let (r, s1) = ready s in
      if \<not> r then s1
      else s1\<lparr>out := out s1 @ [KeyboardRelease 1]\<rparr>)"

text \<open>
  \<open>hold\<close> (lines 59 to 65): the initializer list is copied into \<open>tmp[6]\<close>, at most six
  keys, \<open>i\<close> counts the copied ones; then \<open>sendKeys(tmp, i)\<close> and \<open>delay(ms)\<close>.
\<close>

definition hold :: "u8 list \<Rightarrow> u16 \<Rightarrow> state \<Rightarrow> state" where
  "hold ks ms s =
     (let tmp = map (\<lambda>j. if j < length ks then ks ! j else 0) [0..<6];
          i = of_nat (min (length ks) 6);
          s1 = sendKeys tmp i s
      in delay (ucast ms) s1)"

definition tap :: "u8 \<Rightarrow> u16 \<Rightarrow> state \<Rightarrow> state" where
  "tap k ms s =
     (let s1 = hold [k] ms s;
          s2 = releaseAll s1
      in delay (ucast GAP) s2)"

section \<open>Direction helpers\<close>

definition FORWARD :: "state \<Rightarrow> u8" where
  "FORWARD s = (if facingRight s then KEY_RIGHT else KEY_LEFT)"

definition BACKWARD :: "state \<Rightarrow> u8" where
  "BACKWARD s = (if facingRight s then KEY_LEFT else KEY_RIGHT)"

definition hold_df :: "u16 \<Rightarrow> state \<Rightarrow> state" where
  "hold_df ms s = hold [KEY_DOWN, FORWARD s] ms s"

definition hold_db :: "u16 \<Rightarrow> state \<Rightarrow> state" where
  "hold_db ms s = hold [KEY_DOWN, BACKWARD s] ms s"

section \<open>Commands\<close>

definition cmd_hadouken :: "u8 \<Rightarrow> state \<Rightarrow> state" where
  "cmd_hadouken punch s =
     (let s1 = hold [KEY_DOWN] STEP s;
          s2 = releaseAll s1;
          s3 = delay (ucast GAP) s2;
          s4 = hold_df STEP s3;
          s5 = releaseAll s4;
          s6 = delay (ucast GAP) s5;
          s7 = hold [FORWARD s6] (STEP div 2) s6;
          s8 = tap punch TAP s7
      in releaseAll s8)"

definition cmd_shoryu :: "u8 \<Rightarrow> state \<Rightarrow> state" where
  "cmd_shoryu punch s =
     (let s1 = hold [FORWARD s] (STEP div 2) s;
          s2 = releaseAll s1;
          s3 = delay (ucast (GAP div 2)) s2;
          s4 = hold [KEY_DOWN] (STEP div 2) s3;
          s5 = releaseAll s4;
          s6 = delay (ucast (GAP div 2)) s5;
          s7 = hold_df STEP s6;
          s8 = tap punch TAP s7
      in releaseAll s8)"

definition cmd_tatsu :: "u8 \<Rightarrow> state \<Rightarrow> state" where
  "cmd_tatsu kick s =
     (let s1 = hold [KEY_DOWN] STEP s;
          s2 = releaseAll s1;
          s3 = delay (ucast GAP) s2;
          s4 = hold_db STEP s3;
          s5 = releaseAll s4;
          s6 = delay (ucast GAP) s5;
          s7 = hold [BACKWARD s6] (STEP div 2) s6;
          s8 = tap kick TAP s7
      in releaseAll s8)"

section \<open>Dispatch and scan loop\<close>

definition onPressed :: "nat \<Rightarrow> state \<Rightarrow> state" where
  "onPressed idx s =
     (if idx = BTN_HADOU then cmd_hadouken LP s
      else if idx = BTN_SHORYU then cmd_shoryu MP s
      else if idx = BTN_TATSU then cmd_tatsu LK s
      else if idx = BTN_TOGGLE_FACE then s\<lparr>facingRight := \<not> facingRight s\<rparr>
      else s)"

text \<open>
  The debounce part of the body of the loop over the switches (lines 141 to 152), for
  switch \<open>i\<close> sampled at level \<open>raw\<close> in a cycle that read the clock as \<open>now\<close>. The flag
  returned says whether line 148 calls \<open>onPressed(i)\<close>. The subtraction is the one of
  \<open>uint32_t\<close>: it wraps around.
\<close>

definition debounce :: "u32 \<Rightarrow> nat \<Rightarrow> bool \<Rightarrow> state \<Rightarrow> state \<times> bool" where
  "debounce now i raw s =
     (if raw \<noteq> lastStable s ! i then
        if \<not> debouncing s ! i then
          (s\<lparr>debouncing := (debouncing s)[i := True],
             lastChangeMs := (lastChangeMs s)[i := now]\<rparr>, False)
        else if DEBOUNCE_MS \<le> now - lastChangeMs s ! i then
          (s\<lparr>debouncing := (debouncing s)[i := False],
             lastStable := (lastStable s)[i := raw]\<rparr>, raw = LOW)
        else (s, False)
      else (s\<lparr>debouncing := (debouncing s)[i := False]\<rparr>, False))"

text \<open>One iteration of the loop over the switches: debounce, then dispatch a press.\<close>

definition scan :: "u32 \<Rightarrow> nat \<Rightarrow> bool \<Rightarrow> state \<Rightarrow> state" where
  "scan now i raw s =
     (let (s1, pressed) = debounce now i raw s
      in if pressed then onPressed i s1 else s1)"

text \<open>
  \<open>loop\<close> (lines 137 to 154): the clock is read once, then the switches are scanned in
  ascending order; \<open>raws i\<close> is what \<open>digitalRead\<close> returns for switch \<open>i\<close> when its turn
  comes.
\<close>

definition loop :: "u32 \<Rightarrow> (nat \<Rightarrow> bool) \<Rightarrow> state \<Rightarrow> state" where
  "loop now raws s = fold (\<lambda>i. scan now i (raws i)) [0..<N] s"

text \<open>
  The globals as the function that runs at power-on (lines 110 to 116) and their
  initialisers leave them: every switch stable at the level read, no transition pending,
  facing right. The USB bring-up of lines 118 to 122 is not part of the model.
\<close>

definition setup_globals :: "(nat \<Rightarrow> bool) \<Rightarrow> (nat \<Rightarrow> bool) \<Rightarrow> state" where
  "setup_globals raws rdy =
     \<lparr>lastStable = map raws [0..<N],
      debouncing = replicate N False,
      lastChangeMs = replicate N 0,
      facingRight = True,
      hid_ready = rdy,
      ready_calls = 0,
      out = []\<rparr>"

section \<open>Observing a run\<close>

text \<open>
  The definitions of this section are not in the source: they name what the properties
  below talk about.
\<close>

subsection \<open>Traces\<close>

text \<open>What a send attempted as call number \<open>k\<close> of \<open>usb_hid.ready()\<close> leaves in the trace.\<close>

definition sent :: "(nat \<Rightarrow> bool) \<Rightarrow> nat \<Rightarrow> event \<Rightarrow> event list" where
  "sent rdy k e = (if rdy k then [e] else [])"

text \<open>The arguments of the \<open>delay\<close> calls of a trace, in order, and their sum.\<close>

fun delays :: "event list \<Rightarrow> nat list" where
  "delays [] = []"
| "delays (Delay d # es) = d # delays es"
| "delays (e # es) = delays es"

definition total_delay :: "event list \<Rightarrow> nat" where
  "total_delay es = sum_list (delays es)"

text \<open>The transport answers ready to each of the next \<open>n\<close> calls of \<open>usb_hid.ready()\<close>.\<close>

definition ready_during :: "state \<Rightarrow> nat \<Rightarrow> bool" where
  "ready_during s n = list_all (\<lambda>k. hid_ready s (ready_calls s + k)) [0..<n]"

text \<open>
  The report sequence the specification gives for the quarter-circle-forward move, with
  the forward key and the attack key as parameters: each key set is held for the next
  delay, \<open>KeyboardRelease\<close> is the release of all keys.
\<close>

definition spec_qcf_sequence :: "u8 \<Rightarrow> u8 \<Rightarrow> event list" where
  "spec_qcf_sequence fwd atk =
     [KeyboardReport 1 0 [KEY_DOWN, 0, 0, 0, 0, 0], Delay (unat STEP),
      KeyboardRelease 1, Delay (unat GAP),
      KeyboardReport 1 0 [KEY_DOWN, fwd, 0, 0, 0, 0], Delay (unat STEP),
      KeyboardRelease 1, Delay (unat GAP),
      KeyboardReport 1 0 [fwd, 0, 0, 0, 0, 0], Delay (unat STEP div 2),
      KeyboardReport 1 0 [atk, 0, 0, 0, 0, 0], Delay (unat TAP),
      KeyboardRelease 1, Delay (unat GAP),
      KeyboardRelease 1]"

subsection \<open>Scan cycles\<close>

text \<open>The three arrays have \<open>N\<close> cells each (lines 36 to 38).\<close>

definition wf_state :: "state \<Rightarrow> bool" where
  "wf_state s \<longleftrightarrow>
     length (lastStable s) = N \<and> length (debouncing s) = N \<and> length (lastChangeMs s) = N"

text \<open>
  A cycle is one call of \<open>loop\<close>: the clock value it reads and the levels of the switches.
  \<open>run\<close> performs the cycles in order.
\<close>

type_synonym cycle = "u32 \<times> (nat \<Rightarrow> bool)"

fun run :: "cycle list \<Rightarrow> state \<Rightarrow> state" where
  "run [] s = s"
| "run ((now, raws) # cs) s = run cs (loop now raws s)"

text \<open>
  Whether the cycle calls \<open>onPressed(i)\<close>: the flag of the debounce step of switch \<open>i\<close>, in
  the state the scans of the switches before it have left. \<open>presses\<close> counts these calls
  over a list of cycles.
\<close>

definition pressed_in_loop :: "u32 \<Rightarrow> (nat \<Rightarrow> bool) \<Rightarrow> nat \<Rightarrow> state \<Rightarrow> bool" where
  "pressed_in_loop now raws i s =
     snd (debounce now i (raws i) (fold (\<lambda>j. scan now j (raws j)) [0..<i] s))"

fun presses :: "nat \<Rightarrow> cycle list \<Rightarrow> state \<Rightarrow> nat" where
  "presses i [] s = 0"
| "presses i ((now, raws) # cs) s =
     (if pressed_in_loop now raws i s then 1 else 0) + presses i cs (loop now raws s)"

subsection \<open>One switch in isolation\<close>

text \<open>
  The three cells of switch \<open>i\<close>, and what the loop body does to them: the view in which
  the proofs about sequences of cycles are carried out.
\<close>

type_synonym cell = "bool \<times> bool \<times> u32"

definition chan :: "state \<Rightarrow> nat \<Rightarrow> cell" where
  "chan s i = (lastStable s ! i, debouncing s ! i, lastChangeMs s ! i)"

fun cell_step :: "u32 \<Rightarrow> bool \<Rightarrow> cell \<Rightarrow> cell \<times> bool" where
  "cell_step now raw (st, db, lc) =
     (if raw \<noteq> st then
        if \<not> db then ((st, True, now), False)
        else if DEBOUNCE_MS \<le> now - lc then ((raw, False, lc), raw = LOW)
        else ((st, db, lc), False)
      else ((st, False, lc), False))"

fun cell_run :: "(u32 \<times> bool) list \<Rightarrow> cell \<Rightarrow> cell \<times> nat" where
  "cell_run [] c = (c, 0)"
| "cell_run ((now, raw) # xs) c =
     (fst (cell_run xs (fst (cell_step now raw c))),
      (if snd (cell_step now raw c) then 1 else 0) + snd (cell_run xs (fst (cell_step now raw c))))"

definition samples :: "nat \<Rightarrow> cycle list \<Rightarrow> (u32 \<times> bool) list" where
  "samples i cs = map (\<lambda>c. (fst c, snd c i)) cs"

subsection \<open>Concrete inputs\<close>

definition all_released :: "nat \<Rightarrow> bool" where
  "all_released i = HIGH"

definition press_only :: "nat \<Rightarrow> nat \<Rightarrow> bool" where
  "press_only c i = (if i = c then LOW else HIGH)"

definition always_ready :: "nat \<Rightarrow> bool" where
  "always_ready k = True"

definition never_ready :: "nat \<Rightarrow> bool" where
  "never_ready k = False"

text \<open>Power-on with no switch pressed, the transport ready or not.\<close>

definition power_on_ready :: state where
  "power_on_ready = setup_globals all_released always_ready"

definition power_on_unplugged :: state where
  "power_on_unplugged = setup_globals all_released never_ready"

text \<open>The state after a first cycle at clock \<open>t0\<close> that saw switch \<open>c\<close> go down.\<close>

definition pending_at :: "nat \<Rightarrow> u32 \<Rightarrow> state" where
  "pending_at c t0 = loop t0 (press_only c) power_on_ready"

section \<open>Auxiliary facts\<close>

lemmas key_defs =
  HID_KEY_A_def HID_KEY_D_def HID_KEY_J_def HID_KEY_K_def HID_KEY_M_def HID_KEY_N_def
  HID_KEY_S_def HID_KEY_W_def HID_KEY_SEMICOLON_def HID_KEY_COMMA_def
  KEY_UP_def KEY_LEFT_def KEY_DOWN_def KEY_RIGHT_def
  LP_def MP_def HP_def LK_def MK_def HK_def

lemmas btn_defs = BTN_HADOU_def BTN_SHORYU_def BTN_TATSU_def BTN_TOGGLE_FACE_def

lemmas timing_defs = STEP_def TAP_def GAP_def

subsection \<open>The HID utilities and the commands as state updates\<close>

lemma unat_ucast_16_32: "unat (ucast (ms :: u16) :: u32) = unat ms"
proof -
  have "unat ms < 2 ^ 16"
    using unsigned_less [of ms] by simp
  then have "unat ms < 2 ^ 32"
    by simp
  then show ?thesis
    by (simp add: unsigned_ucast_eq take_bit_nat_eq_self)
qed

lemma unat_half_STEP: "unat (STEP div 2) = unat STEP div 2"
  by (simp add: STEP_def)

lemma upt_0_6: "[0..<6] = [0, 1, 2, 3, 4, 5]"
  by code_simp

lemma delay_eq: "delay ms s = s\<lparr>out := out s @ [Delay (unat ms)]\<rparr>"
  by (simp add: delay_def)

lemma sendKeys_eq:
  "sendKeys keys count s =
     s\<lparr>ready_calls := Suc (ready_calls s),
       out := out s @ sent (hid_ready s) (ready_calls s)
         (KeyboardReport 1 0 (map (\<lambda>i. if i < unat count then keys ! i else 0) [0..<6]))\<rparr>"
  by (simp add: sendKeys_def ready_def sent_def)

lemma releaseAll_eq:
  "releaseAll s =
     s\<lparr>ready_calls := Suc (ready_calls s),
       out := out s @ sent (hid_ready s) (ready_calls s) (KeyboardRelease 1)\<rparr>"
  by (simp add: releaseAll_def ready_def sent_def)

lemma hold_one_eq:
  "hold [a] ms s =
     s\<lparr>ready_calls := Suc (ready_calls s),
       out := out s @ sent (hid_ready s) (ready_calls s) (KeyboardReport 1 0 [a, 0, 0, 0, 0, 0])
         @ [Delay (unat ms)]\<rparr>"
  by (simp add: hold_def sendKeys_eq delay_eq unat_ucast_16_32 upt_0_6)

lemma hold_two_eq:
  "hold [a, b] ms s =
     s\<lparr>ready_calls := Suc (ready_calls s),
       out := out s @ sent (hid_ready s) (ready_calls s) (KeyboardReport 1 0 [a, b, 0, 0, 0, 0])
         @ [Delay (unat ms)]\<rparr>"
  by (simp add: hold_def sendKeys_eq delay_eq unat_ucast_16_32 upt_0_6)

lemma tap_eq:
  "tap k ms s =
     s\<lparr>ready_calls := ready_calls s + 2,
       out := out s @ sent (hid_ready s) (ready_calls s) (KeyboardReport 1 0 [k, 0, 0, 0, 0, 0])
         @ [Delay (unat ms)]
         @ sent (hid_ready s) (ready_calls s + 1) (KeyboardRelease 1) @ [Delay (unat GAP)]\<rparr>"
  by (simp add: tap_def hold_one_eq releaseAll_eq delay_eq unat_ucast_16_32)

lemma cmd_hadouken_eq:
  "cmd_hadouken punch s =
     s\<lparr>ready_calls := ready_calls s + 8,
       out := out s
         @ sent (hid_ready s) (ready_calls s) (KeyboardReport 1 0 [KEY_DOWN, 0, 0, 0, 0, 0])
         @ [Delay (unat STEP)]
         @ sent (hid_ready s) (ready_calls s + 1) (KeyboardRelease 1)
         @ [Delay (unat GAP)]
         @ sent (hid_ready s) (ready_calls s + 2) (KeyboardReport 1 0 [KEY_DOWN, FORWARD s, 0, 0, 0, 0])
         @ [Delay (unat STEP)]
         @ sent (hid_ready s) (ready_calls s + 3) (KeyboardRelease 1)
         @ [Delay (unat GAP)]
         @ sent (hid_ready s) (ready_calls s + 4) (KeyboardReport 1 0 [FORWARD s, 0, 0, 0, 0, 0])
         @ [Delay (unat (STEP div 2))]
         @ sent (hid_ready s) (ready_calls s + 5) (KeyboardReport 1 0 [punch, 0, 0, 0, 0, 0])
         @ [Delay (unat TAP)]
         @ sent (hid_ready s) (ready_calls s + 6) (KeyboardRelease 1)
         @ [Delay (unat GAP)]
         @ sent (hid_ready s) (ready_calls s + 7) (KeyboardRelease 1)\<rparr>"
  by (simp add: cmd_hadouken_def tap_eq hold_df_def hold_one_eq hold_two_eq releaseAll_eq delay_eq
      FORWARD_def unat_ucast_16_32 eval_nat_numeral)

lemma cmd_shoryu_eq:
  "cmd_shoryu punch s =
     s\<lparr>ready_calls := ready_calls s + 8,
       out := out s
         @ sent (hid_ready s) (ready_calls s) (KeyboardReport 1 0 [FORWARD s, 0, 0, 0, 0, 0])
         @ [Delay (unat (STEP div 2))]
         @ sent (hid_ready s) (ready_calls s + 1) (KeyboardRelease 1)
         @ [Delay (unat (GAP div 2))]
         @ sent (hid_ready s) (ready_calls s + 2) (KeyboardReport 1 0 [KEY_DOWN, 0, 0, 0, 0, 0])
         @ [Delay (unat (STEP div 2))]
         @ sent (hid_ready s) (ready_calls s + 3) (KeyboardRelease 1)
         @ [Delay (unat (GAP div 2))]
         @ sent (hid_ready s) (ready_calls s + 4) (KeyboardReport 1 0 [KEY_DOWN, FORWARD s, 0, 0, 0, 0])
         @ [Delay (unat STEP)]
         @ sent (hid_ready s) (ready_calls s + 5) (KeyboardReport 1 0 [punch, 0, 0, 0, 0, 0])
         @ [Delay (unat TAP)]
         @ sent (hid_ready s) (ready_calls s + 6) (KeyboardRelease 1)
         @ [Delay (unat GAP)]
         @ sent (hid_ready s) (ready_calls s + 7) (KeyboardRelease 1)\<rparr>"
  by (simp add: cmd_shoryu_def tap_eq hold_df_def hold_one_eq hold_two_eq releaseAll_eq delay_eq
      FORWARD_def unat_ucast_16_32 eval_nat_numeral)

lemma cmd_tatsu_eq:
  "cmd_tatsu kick s =
     s\<lparr>ready_calls := ready_calls s + 8,
       out := out s
         @ sent (hid_ready s) (ready_calls s) (KeyboardReport 1 0 [KEY_DOWN, 0, 0, 0, 0, 0])
         @ [Delay (unat STEP)]
         @ sent (hid_ready s) (ready_calls s + 1) (KeyboardRelease 1)
         @ [Delay (unat GAP)]
         @ sent (hid_ready s) (ready_calls s + 2) (KeyboardReport 1 0 [KEY_DOWN, BACKWARD s, 0, 0, 0, 0])
         @ [Delay (unat STEP)]
         @ sent (hid_ready s) (ready_calls s + 3) (KeyboardRelease 1)
         @ [Delay (unat GAP)]
         @ sent (hid_ready s) (ready_calls s + 4) (KeyboardReport 1 0 [BACKWARD s, 0, 0, 0, 0, 0])
         @ [Delay (unat (STEP div 2))]
         @ sent (hid_ready s) (ready_calls s + 5) (KeyboardReport 1 0 [kick, 0, 0, 0, 0, 0])
         @ [Delay (unat TAP)]
         @ sent (hid_ready s) (ready_calls s + 6) (KeyboardRelease 1)
         @ [Delay (unat GAP)]
         @ sent (hid_ready s) (ready_calls s + 7) (KeyboardRelease 1)\<rparr>"
  by (simp add: cmd_tatsu_def tap_eq hold_db_def hold_one_eq hold_two_eq releaseAll_eq delay_eq
      BACKWARD_def unat_ucast_16_32 eval_nat_numeral)

lemma delays_append: "delays (xs @ ys) = delays xs @ delays ys"
  by (induction xs rule: delays.induct) simp_all

lemma delays_sent_report: "delays (sent rdy k (KeyboardReport a b c)) = []"
  by (simp add: sent_def)

lemma delays_sent_release: "delays (sent rdy k (KeyboardRelease a)) = []"
  by (simp add: sent_def)

lemmas delays_simps = delays_append delays_sent_report delays_sent_release

lemma hold_delays: "delays (out (hold ks ms s)) = delays (out s) @ [unat ms]"
  by (simp add: hold_def sendKeys_eq delay_eq delays_simps unat_ucast_16_32)

lemma ready_during_sent:
  "ready_during s n \<Longrightarrow> k < n \<Longrightarrow> sent (hid_ready s) (ready_calls s + k) e = [e]"
  by (simp add: ready_during_def list_all_iff sent_def)

subsection \<open>A cycle seen from one switch\<close>

lemma chan_fields:
  "chan s i = (st, db, lc) \<Longrightarrow>
     lastStable s ! i = st \<and> debouncing s ! i = db \<and> lastChangeMs s ! i = lc"
  by (simp add: chan_def)

lemma chan_proj:
  "lastStable s ! i = fst (chan s i)"
  "debouncing s ! i = fst (snd (chan s i))"
  "lastChangeMs s ! i = snd (snd (chan s i))"
  by (simp_all add: chan_def)

lemma debounce_chan:
  assumes "wf_state s" and "i < N"
  shows "chan (fst (debounce now i raw s)) i = fst (cell_step now raw (chan s i))"
    and "snd (debounce now i raw s) = snd (cell_step now raw (chan s i))"
  using assms by (simp_all add: debounce_def chan_def wf_state_def)

lemma debounce_other:
  "j \<noteq> i \<Longrightarrow> chan (fst (debounce now j raw s)) i = chan s i"
  by (simp add: debounce_def chan_def)

lemma debounce_wf: "wf_state s \<Longrightarrow> wf_state (fst (debounce now i raw s))"
  by (simp add: debounce_def wf_state_def)

lemma onPressed_arrays:
  "lastStable (onPressed idx s) = lastStable s"
  "debouncing (onPressed idx s) = debouncing s"
  "lastChangeMs (onPressed idx s) = lastChangeMs s"
  by (simp_all add: onPressed_def cmd_hadouken_eq cmd_shoryu_eq cmd_tatsu_eq)

lemma onPressed_chan: "chan (onPressed idx s) i = chan s i"
  by (simp add: chan_def onPressed_arrays)

lemma onPressed_wf: "wf_state (onPressed idx s) = wf_state s"
  by (simp add: wf_state_def onPressed_arrays)

lemma scan_chan:
  assumes "wf_state s" and "i < N"
  shows "chan (scan now i raw s) i = fst (cell_step now raw (chan s i))"
  using debounce_chan(1) [OF assms, of now raw]
  by (simp add: scan_def split_beta onPressed_chan)

lemma scan_other: "j \<noteq> i \<Longrightarrow> chan (scan now j raw s) i = chan s i"
  using debounce_other [of j i now raw s]
  by (simp add: scan_def split_beta onPressed_chan)

lemma scan_wf: "wf_state s \<Longrightarrow> wf_state (scan now i raw s)"
  using debounce_wf [of s now i raw]
  by (simp add: scan_def split_beta onPressed_wf)

lemma fold_scan_wf:
  "wf_state s \<Longrightarrow> wf_state (fold (\<lambda>j. scan now j (raws j)) js s)"
  by (induction js arbitrary: s) (simp_all add: scan_wf)

lemma fold_scan_other:
  "i \<notin> set js \<Longrightarrow> chan (fold (\<lambda>j. scan now j (raws j)) js s) i = chan s i"
  by (induction js arbitrary: s) (simp_all add: scan_other)

lemma upt_split:
  assumes "i < n"
  shows "[0..<n] = [0..<i] @ i # [Suc i..<n]"
proof -
  have "[0..<i + (n - i)] = [0..<i] @ [i..<i + (n - i)]"
    by (rule upt_add_eq_append) simp
  then show ?thesis
    using assms by (simp add: upt_conv_Cons)
qed

lemma loop_wf: "wf_state s \<Longrightarrow> wf_state (loop now raws s)"
  by (simp add: loop_def fold_scan_wf)

text \<open>
  A cycle does to the cells of switch \<open>i\<close> what the loop body does to them, whatever the
  other switches and the moves they trigger do.
\<close>

lemma loop_chan:
  assumes "wf_state s" and "i < N"
  shows "chan (loop now raws s) i = fst (cell_step now (raws i) (chan s i))"
    and "pressed_in_loop now raws i s = snd (cell_step now (raws i) (chan s i))"
proof -
  let ?f = "\<lambda>j. scan now j (raws j)"
  let ?s1 = "fold ?f [0..<i] s"
  have wf1: "wf_state ?s1"
    using assms(1) by (rule fold_scan_wf)
  have c1: "chan ?s1 i = chan s i"
    by (rule fold_scan_other) simp
  have "loop now raws s = fold ?f [Suc i..<N] (scan now i (raws i) ?s1)"
    by (simp add: loop_def upt_split [OF assms(2)])
  then have "chan (loop now raws s) i = chan (scan now i (raws i) ?s1) i"
    by (simp add: fold_scan_other)
  then show "chan (loop now raws s) i = fst (cell_step now (raws i) (chan s i))"
    by (simp add: scan_chan [OF wf1 assms(2)] c1)
  show "pressed_in_loop now raws i s = snd (cell_step now (raws i) (chan s i))"
    by (simp add: pressed_in_loop_def debounce_chan(2) [OF wf1 assms(2)] c1)
qed

lemma run_wf: "wf_state s \<Longrightarrow> wf_state (run cs s)"
  by (induction cs s rule: run.induct) (simp_all add: loop_wf)

lemma run_chan:
  assumes "i < N"
  shows "wf_state s \<Longrightarrow>
    chan (run cs s) i = fst (cell_run (samples i cs) (chan s i))
    \<and> presses i cs s = snd (cell_run (samples i cs) (chan s i))"
proof (induction cs s rule: run.induct)
  case (1 s)
  then show ?case by (simp add: samples_def)
next
  case (2 now raws cs s)
  have wf: "wf_state (loop now raws s)"
    using "2.prems" by (rule loop_wf)
  show ?case
    using "2.IH" [OF wf] loop_chan [OF "2.prems" assms, of now raws]
    by (simp add: samples_def split_beta)
qed

lemma samples_Cons: "samples i ((t, raws) # cs) = (t, raws i) # samples i cs"
  by (simp add: samples_def)

lemma samples_append: "samples i (cs @ ds) = samples i cs @ samples i ds"
  by (simp add: samples_def)

lemma samples_Nil: "samples i [] = []"
  by (simp add: samples_def)

lemmas samples_simps = samples_Cons samples_append samples_Nil

text \<open>A switch whose transition is pending, after one more cycle that sees it changed.\<close>

lemma loop_pending:
  assumes "wf_state s" and "i < N" and "debouncing s ! i" and "raws i \<noteq> lastStable s ! i"
  shows "lastStable (loop now raws s) ! i =
        (if DEBOUNCE_MS \<le> now - lastChangeMs s ! i then raws i else lastStable s ! i)"
    and "debouncing (loop now raws s) ! i = (\<not> DEBOUNCE_MS \<le> now - lastChangeMs s ! i)"
    and "lastChangeMs (loop now raws s) ! i = lastChangeMs s ! i"
    and "pressed_in_loop now raws i s =
        (DEBOUNCE_MS \<le> now - lastChangeMs s ! i \<and> raws i = LOW)"
proof -
  define c where "c = chan s i"
  have c: "c = (lastStable s ! i, True, lastChangeMs s ! i)"
    using assms(3) by (simp add: c_def chan_def)
  have "chan (loop now raws s) i = fst (cell_step now (raws i) c)"
    and p: "pressed_in_loop now raws i s = snd (cell_step now (raws i) c)"
    using loop_chan [OF assms(1,2), of now raws] by (simp_all add: c_def)
  then have "chan (loop now raws s) i =
      (if DEBOUNCE_MS \<le> now - lastChangeMs s ! i
       then (raws i, False, lastChangeMs s ! i)
       else (lastStable s ! i, True, lastChangeMs s ! i))"
    using assms(4) by (simp add: c)
  then show "lastStable (loop now raws s) ! i =
        (if DEBOUNCE_MS \<le> now - lastChangeMs s ! i then raws i else lastStable s ! i)"
    and "debouncing (loop now raws s) ! i = (\<not> DEBOUNCE_MS \<le> now - lastChangeMs s ! i)"
    and "lastChangeMs (loop now raws s) ! i = lastChangeMs s ! i"
    by (simp_all add: chan_def split: if_splits)
  show "pressed_in_loop now raws i s =
        (DEBOUNCE_MS \<le> now - lastChangeMs s ! i \<and> raws i = LOW)"
    using assms(4) by (simp add: p c)
qed

subsection \<open>Sequences of samples of one switch\<close>

lemma cell_run_append:
  "cell_run (xs @ ys) c =
     (fst (cell_run ys (fst (cell_run xs c))),
      snd (cell_run xs c) + snd (cell_run ys (fst (cell_run xs c))))"
  by (induction xs c rule: cell_run.induct) simp_all

text \<open>Samples at the stable level change nothing but the pending flag.\<close>

lemma cell_run_settled:
  "\<forall>x\<in>set xs. snd x = st \<Longrightarrow> cell_run xs (st, db, lc) = ((st, db \<and> xs = [], lc), 0)"
  by (induction xs arbitrary: db) auto

text \<open>
  While the level stays changed, a pending transition either is still pending or has
  been committed once, with a press exactly when the new level is \<open>LOW\<close>.
\<close>

lemma cell_run_pending:
  assumes "r \<noteq> st"
  shows "\<forall>x\<in>set xs. snd x = r \<Longrightarrow>
    cell_run xs (st, True, t0) = ((st, True, t0), 0)
    \<or> cell_run xs (st, True, t0) = ((r, False, t0), if r = LOW then 1 else 0)"
proof (induction xs)
  case Nil
  then show ?case by simp
next
  case (Cons x xs)
  obtain now where x: "x = (now, r)"
    using Cons.prems by (cases x) simp
  show ?case
  proof (cases "DEBOUNCE_MS \<le> now - t0")
    case True
    have "cell_run xs (r, False, t0) = ((r, False, t0), 0)"
      using Cons.prems cell_run_settled [of xs r False t0] by simp
    with True assms show ?thesis
      by (simp add: x)
  next
    case False
    with Cons assms show ?thesis
      by (auto simp: x)
  qed
qed

lemma cell_sustained:
  assumes "r \<noteq> st" and "\<forall>x\<in>set mid. snd x = r" and "DEBOUNCE_MS \<le> tn - t0"
  shows "cell_run ((t0, r) # mid @ [(tn, r)]) (st, False, lc)
    = ((r, False, t0), if r = LOW then 1 else 0)"
proof -
  have first: "cell_step t0 r (st, False, lc) = ((st, True, t0), False)"
    using assms(1) by simp
  from cell_run_pending [OF assms(1) assms(2), of t0]
  have "cell_run (mid @ [(tn, r)]) (st, True, t0) = ((r, False, t0), if r = LOW then 1 else 0)"
    using assms(1,3) by (auto simp: cell_run_append)
  with first show ?thesis
    by simp
qed

lemma cell_run_waiting:
  assumes "r \<noteq> st"
  shows "\<forall>x\<in>set xs. snd x = r \<and> fst x - t0 < DEBOUNCE_MS \<Longrightarrow>
    cell_run xs (st, True, t0) = ((st, True, t0), 0)"
proof (induction xs)
  case Nil
  then show ?case by simp
next
  case (Cons x xs)
  obtain now where x: "x = (now, r)"
    using Cons.prems by (cases x) simp
  have "\<not> DEBOUNCE_MS \<le> now - t0"
    using Cons.prems by (simp add: x not_le)
  with Cons assms show ?case
    by (simp add: x)
qed

lemma cell_bounce:
  assumes "r \<noteq> st" and "\<forall>x\<in>set mid. snd x = r \<and> fst x - t0 < DEBOUNCE_MS"
  shows "cell_run ((t0, r) # mid @ [(tn, st)]) (st, False, lc) = ((st, False, t0), 0)"
  using assms(1) cell_run_waiting [OF assms]
  by (simp add: cell_run_append)

text \<open>With no transition pending, the stored start time has no influence on what follows.\<close>

lemma cell_run_forgets:
  "fst (fst (cell_run xs (st, False, lc1))) = fst (fst (cell_run xs (st, False, lc2)))
   \<and> fst (snd (fst (cell_run xs (st, False, lc1)))) = fst (snd (fst (cell_run xs (st, False, lc2))))
   \<and> snd (cell_run xs (st, False, lc1)) = snd (cell_run xs (st, False, lc2))"
proof (induction xs arbitrary: lc1 lc2)
  case Nil
  then show ?case by simp
next
  case (Cons x xs)
  obtain now raw where x: "x = (now, raw)"
    by (cases x)
  show ?case
  proof (cases "raw = st")
    case True
    with Cons.IH [of lc1 lc2] show ?thesis
      by (simp add: x split_beta)
  next
    case False
    then show ?thesis
      by (simp add: x split_beta)
  qed
qed

lemma elapsed_wraps:
  assumes "e < 2 ^ 32"
  shows "unat ((of_nat (t0 + e) :: u32) - of_nat t0) = e"
proof -
  have "(of_nat (t0 + e) :: u32) - of_nat t0 = of_nat e"
    by simp
  then show ?thesis
    using assms by (simp add: unat_of_nat)
qed

subsection \<open>The concrete inputs\<close>

lemma N_pos: "0 < N"
  by (simp add: N_def)

lemma power_on_ready_wf: "wf_state power_on_ready"
  by (simp add: wf_state_def power_on_ready_def setup_globals_def)

lemma power_on_ready_chan: "i < N \<Longrightarrow> chan power_on_ready i = (HIGH, False, 0)"
  by (simp add: chan_def power_on_ready_def setup_globals_def all_released_def)

lemma pending_at_wf: "wf_state (pending_at c t0)"
  by (simp add: pending_at_def loop_wf power_on_ready_wf)

lemma pending_at_chan:
  assumes "c < N"
  shows "chan (pending_at c t0) c = (HIGH, True, t0)"
  unfolding pending_at_def
  by (simp add: loop_chan(1) [OF power_on_ready_wf assms] power_on_ready_chan [OF assms]
      press_only_def HIGH_def LOW_def)

section \<open>The macro sequencer\<close>

text \<open>
  Claim C1, amended. Whenever the transport answers ready to each of the eight sends of the
  move, \<open>cmd_hadouken(LP)\<close> appends exactly this to the trace when \<open>facingRight\<close> is true:
  Down held \<open>STEP\<close> ms, release of all keys, gap of \<open>GAP\<close> ms, Down and Right held \<open>STEP\<close>
  ms, release, gap of \<open>GAP\<close> ms, Right held \<open>STEP/2\<close> ms, then \<open>LP\<close> alone held \<open>TAP\<close> ms,
  release, gap of \<open>GAP\<close> ms, and a last release. When \<open>facingRight\<close> is false it appends
  the same sequence with Left in the place of every Right.
\<close>

theorem hadouken_sequence_when_ready:
  assumes "ready_during s 8"
  shows "(facingRight s \<longrightarrow> out (cmd_hadouken LP s) = out s @ spec_qcf_sequence KEY_RIGHT LP)
       \<and> (\<not> facingRight s \<longrightarrow> out (cmd_hadouken LP s) = out s @ spec_qcf_sequence KEY_LEFT LP)"
proof -
  have r: "sent (hid_ready s) (ready_calls s + k) e = [e]" if "k < 8" for k e
    using assms that by (rule ready_during_sent)
  have r0: "sent (hid_ready s) (ready_calls s) e = [e]" for e
    using r [of 0 e] by simp
  have "out (cmd_hadouken LP s) = out s @ spec_qcf_sequence (FORWARD s) LP"
    unfolding cmd_hadouken_eq
    by (simp only: r r0) (simp add: spec_qcf_sequence_def unat_half_STEP)
  then show ?thesis
    by (simp add: FORWARD_def)
qed

theorem hadouken_sequence_when_ready_witness:
  "ready_during power_on_ready 8 \<and> facingRight power_on_ready
   \<and> out (cmd_hadouken LP power_on_ready) =
       [KeyboardReport 1 0 [0x16, 0, 0, 0, 0, 0], Delay 28, KeyboardRelease 1, Delay 16,
        KeyboardReport 1 0 [0x16, 0x07, 0, 0, 0, 0], Delay 28, KeyboardRelease 1, Delay 16,
        KeyboardReport 1 0 [0x07, 0, 0, 0, 0, 0], Delay 14,
        KeyboardReport 1 0 [0x0D, 0, 0, 0, 0, 0], Delay 22, KeyboardRelease 1, Delay 16,
        KeyboardRelease 1]
   \<and> ready_during (onPressed BTN_TOGGLE_FACE power_on_ready) 8
   \<and> \<not> facingRight (onPressed BTN_TOGGLE_FACE power_on_ready)
   \<and> out (cmd_hadouken LP (onPressed BTN_TOGGLE_FACE power_on_ready)) =
       [KeyboardReport 1 0 [0x16, 0, 0, 0, 0, 0], Delay 28, KeyboardRelease 1, Delay 16,
        KeyboardReport 1 0 [0x16, 0x04, 0, 0, 0, 0], Delay 28, KeyboardRelease 1, Delay 16,
        KeyboardReport 1 0 [0x04, 0, 0, 0, 0, 0], Delay 14,
        KeyboardReport 1 0 [0x0D, 0, 0, 0, 0, 0], Delay 22, KeyboardRelease 1, Delay 16,
        KeyboardRelease 1]"
proof -
  have r: "ready_during power_on_ready 8"
    by (simp add: ready_during_def list_all_iff power_on_ready_def setup_globals_def always_ready_def)
  have l: "ready_during (onPressed BTN_TOGGLE_FACE power_on_ready) 8"
    by (simp add: ready_during_def list_all_iff power_on_ready_def setup_globals_def always_ready_def
        onPressed_def btn_defs)
  show ?thesis
    using r l hadouken_sequence_when_ready [OF r] hadouken_sequence_when_ready [OF l]
    by (simp add: power_on_ready_def setup_globals_def onPressed_def btn_defs
        spec_qcf_sequence_def key_defs timing_defs)
qed

text \<open>
  Claim C1 as stated, for every invocation, fails: with a transport that is never ready
  the move sends no report at all, only its delays remain.
\<close>

theorem hadouken_sequence_unplugged_counterexample:
  "facingRight power_on_unplugged
   \<and> out (cmd_hadouken LP power_on_unplugged) =
       [Delay 28, Delay 16, Delay 28, Delay 16, Delay 14, Delay 22, Delay 16]
   \<and> out (cmd_hadouken LP power_on_unplugged)
       \<noteq> out power_on_unplugged @ spec_qcf_sequence KEY_RIGHT LP"
  by (simp add: cmd_hadouken_eq sent_def power_on_unplugged_def setup_globals_def never_ready_def
      spec_qcf_sequence_def timing_defs)

text \<open>
  Claim C5. A send attempted while the transport is not ready is skipped: \<open>sendKeys\<close> and
  \<open>releaseAll\<close> ask \<open>ready()\<close> once and leave the rest of the state as it was, so nothing
  is retried or kept for later. The delay of \<open>hold\<close> and the delays of the three moves are
  the same lists of durations whatever the transport answers, and each move asks
  \<open>ready()\<close> exactly eight times.
\<close>

theorem not_ready_send_skipped_timing_kept:
  "(\<not> hid_ready s (ready_calls s) \<longrightarrow>
      sendKeys keys count s = s\<lparr>ready_calls := Suc (ready_calls s)\<rparr>
      \<and> releaseAll s = s\<lparr>ready_calls := Suc (ready_calls s)\<rparr>)
   \<and> delays (out (hold ks ms s)) = delays (out s) @ [unat ms]
   \<and> delays (out (cmd_hadouken punch s)) = delays (out s) @ [28, 16, 28, 16, 14, 22, 16]
   \<and> delays (out (cmd_shoryu punch s)) = delays (out s) @ [14, 8, 14, 8, 28, 22, 16]
   \<and> delays (out (cmd_tatsu kick s)) = delays (out s) @ [28, 16, 28, 16, 14, 22, 16]
   \<and> ready_calls (cmd_hadouken punch s) = ready_calls s + 8
   \<and> ready_calls (cmd_shoryu punch s) = ready_calls s + 8
   \<and> ready_calls (cmd_tatsu kick s) = ready_calls s + 8"
proof -
  have skip: "\<not> hid_ready s (ready_calls s) \<longrightarrow>
      sendKeys keys count s = s\<lparr>ready_calls := Suc (ready_calls s)\<rparr>
      \<and> releaseAll s = s\<lparr>ready_calls := Suc (ready_calls s)\<rparr>"
    by (simp add: sendKeys_def releaseAll_def ready_def)
  have h: "delays (out (cmd_hadouken punch s)) = delays (out s) @ [28, 16, 28, 16, 14, 22, 16]"
    by (simp add: cmd_hadouken_eq delays_simps timing_defs)
  have y: "delays (out (cmd_shoryu punch s)) = delays (out s) @ [14, 8, 14, 8, 28, 22, 16]"
    by (simp add: cmd_shoryu_eq delays_simps timing_defs)
  have t: "delays (out (cmd_tatsu kick s)) = delays (out s) @ [28, 16, 28, 16, 14, 22, 16]"
    by (simp add: cmd_tatsu_eq delays_simps timing_defs)
  show ?thesis
    using skip h y t hold_delays [of ks ms s]
    by (simp add: cmd_hadouken_eq cmd_shoryu_eq cmd_tatsu_eq)
qed

theorem not_ready_send_skipped_timing_kept_witness:
  "\<not> hid_ready power_on_unplugged (ready_calls power_on_unplugged)
   \<and> sendKeys [KEY_DOWN, 0, 0, 0, 0, 0] 1 power_on_unplugged = power_on_unplugged\<lparr>ready_calls := 1\<rparr>
   \<and> releaseAll power_on_unplugged = power_on_unplugged\<lparr>ready_calls := 1\<rparr>
   \<and> out (sendKeys [KEY_DOWN, 0, 0, 0, 0, 0] 1 power_on_unplugged) = []
   \<and> delays (out (cmd_hadouken LP power_on_unplugged)) = [28, 16, 28, 16, 14, 22, 16]
   \<and> delays (out (cmd_hadouken LP power_on_ready)) = [28, 16, 28, 16, 14, 22, 16]"
  using not_ready_send_skipped_timing_kept
      [of power_on_unplugged "[KEY_DOWN, 0, 0, 0, 0, 0]" 1 "[KEY_DOWN]" STEP LP LK]
    not_ready_send_skipped_timing_kept
      [of power_on_ready "[KEY_DOWN, 0, 0, 0, 0, 0]" 1 "[KEY_DOWN]" STEP LP LK]
  by (simp add: power_on_unplugged_def power_on_ready_def setup_globals_def never_ready_def)

text \<open>
  Claim C6. For every invocation, the delays that \<open>cmd_hadouken\<close> executes add up to
  \<open>STEP + GAP + STEP + GAP + STEP/2 + TAP + GAP\<close> milliseconds, that is 140.
\<close>

theorem hadouken_total_delay:
  "total_delay (out (cmd_hadouken punch s)) =
     total_delay (out s)
       + (unat STEP + unat GAP + unat STEP + unat GAP + unat STEP div 2 + unat TAP + unat GAP)
   \<and> unat STEP + unat GAP + unat STEP + unat GAP + unat STEP div 2 + unat TAP + unat GAP = 140"
  by (simp add: total_delay_def cmd_hadouken_eq delays_simps timing_defs)

theorem hadouken_total_delay_witness:
  "total_delay (out (cmd_hadouken LP power_on_ready)) = 140
   \<and> total_delay (out (cmd_hadouken LP power_on_unplugged)) = 140"
  using hadouken_total_delay [of LP power_on_ready] hadouken_total_delay [of LP power_on_unplugged]
  by (simp add: power_on_ready_def power_on_unplugged_def setup_globals_def total_delay_def)

section \<open>Dispatch\<close>

text \<open>
  Claim C4. A press dispatched to the facing-toggle switch flips \<open>facingRight\<close> once and
  does nothing else: the trace gets no report, no release and no delay, and \<open>ready()\<close> is
  not asked. In the scan of that switch, \<open>facingRight\<close> is flipped when the debounce step
  reports a press, with nothing added to the trace, and is left alone when it reports none.
\<close>

theorem toggle_press_flips_facing_silently:
  "facingRight (onPressed BTN_TOGGLE_FACE s) = (\<not> facingRight s)
   \<and> out (onPressed BTN_TOGGLE_FACE s) = out s
   \<and> ready_calls (onPressed BTN_TOGGLE_FACE s) = ready_calls s
   \<and> onPressed BTN_TOGGLE_FACE s = s\<lparr>facingRight := \<not> facingRight s\<rparr>
   \<and> (snd (debounce now BTN_TOGGLE_FACE raw s) \<longrightarrow>
        facingRight (scan now BTN_TOGGLE_FACE raw s) = (\<not> facingRight s)
        \<and> out (scan now BTN_TOGGLE_FACE raw s) = out s
        \<and> ready_calls (scan now BTN_TOGGLE_FACE raw s) = ready_calls s)
   \<and> (\<not> snd (debounce now BTN_TOGGLE_FACE raw s) \<longrightarrow>
        facingRight (scan now BTN_TOGGLE_FACE raw s) = facingRight s)"
  by (simp add: onPressed_def btn_defs scan_def debounce_def)

theorem toggle_press_flips_facing_silently_witness:
  "snd (debounce 130 BTN_TOGGLE_FACE LOW (pending_at 3 100))
   \<and> facingRight (pending_at 3 100)
   \<and> \<not> facingRight (scan 130 BTN_TOGGLE_FACE LOW (pending_at 3 100))
   \<and> out (scan 130 BTN_TOGGLE_FACE LOW (pending_at 3 100)) = []
   \<and> \<not> snd (debounce 110 BTN_TOGGLE_FACE LOW (pending_at 3 100))
   \<and> facingRight (scan 110 BTN_TOGGLE_FACE LOW (pending_at 3 100))"
proof -
  have f: "facingRight (pending_at 3 100)"
    by code_simp
  have t: "out (pending_at 3 100) = []"
    by code_simp
  have p: "snd (debounce 130 BTN_TOGGLE_FACE LOW (pending_at 3 100))"
    by code_simp
  have q: "\<not> snd (debounce 110 BTN_TOGGLE_FACE LOW (pending_at 3 100))"
    by code_simp
  show ?thesis
    using toggle_press_flips_facing_silently [of "pending_at 3 100" 130 LOW]
      toggle_press_flips_facing_silently [of "pending_at 3 100" 110 LOW]
      f t p q
    by simp
qed

text \<open>
  Claim C8. Two presses of the facing toggle in a row give back the state they started
  from, \<open>facingRight\<close> included, so every move run after them appends to the trace what
  it would have appended before them.
\<close>

theorem toggle_twice_restores:
  "onPressed BTN_TOGGLE_FACE (onPressed BTN_TOGGLE_FACE s) = s
   \<and> facingRight (onPressed BTN_TOGGLE_FACE (onPressed BTN_TOGGLE_FACE s)) = facingRight s
   \<and> out (cmd_hadouken punch (onPressed BTN_TOGGLE_FACE (onPressed BTN_TOGGLE_FACE s)))
       = out (cmd_hadouken punch s)
   \<and> out (cmd_shoryu punch (onPressed BTN_TOGGLE_FACE (onPressed BTN_TOGGLE_FACE s)))
       = out (cmd_shoryu punch s)
   \<and> out (cmd_tatsu kick (onPressed BTN_TOGGLE_FACE (onPressed BTN_TOGGLE_FACE s)))
       = out (cmd_tatsu kick s)
   \<and> out (onPressed idx (onPressed BTN_TOGGLE_FACE (onPressed BTN_TOGGLE_FACE s)))
       = out (onPressed idx s)"
proof -
  have "onPressed BTN_TOGGLE_FACE (onPressed BTN_TOGGLE_FACE s) = s"
    by (simp add: onPressed_def btn_defs)
  then show ?thesis
    by simp
qed

theorem toggle_twice_restores_witness:
  "onPressed BTN_TOGGLE_FACE (onPressed BTN_TOGGLE_FACE power_on_ready) = power_on_ready
   \<and> out (cmd_hadouken LP (onPressed BTN_TOGGLE_FACE (onPressed BTN_TOGGLE_FACE power_on_ready)))
       = out (cmd_hadouken LP power_on_ready)"
  using toggle_twice_restores [of power_on_ready LP LK 0]
  by simp

text \<open>
  Claim C9. A press dispatched for an index that is none of 0, 1, 2, 3 changes nothing:
  the trace, \<open>facingRight\<close> and the debounce arrays are as before. Index 4, the fifth
  switch, is such an index.
\<close>

theorem unmapped_press_is_noop:
  assumes "idx \<notin> {BTN_HADOU, BTN_SHORYU, BTN_TATSU, BTN_TOGGLE_FACE}"
  shows "onPressed idx s = s"
  using assms by (simp add: onPressed_def)

theorem unmapped_press_is_noop_witness:
  "4 \<notin> {BTN_HADOU, BTN_SHORYU, BTN_TATSU, BTN_TOGGLE_FACE} \<and> 4 < N
   \<and> onPressed 4 power_on_ready = power_on_ready"
proof -
  have h: "4 \<notin> {BTN_HADOU, BTN_SHORYU, BTN_TATSU, BTN_TOGGLE_FACE}"
    by (simp add: btn_defs)
  show ?thesis
    using h unmapped_press_is_noop [OF h, of power_on_ready] by (simp add: N_def)
qed

section \<open>Debouncing\<close>

text \<open>
  Claim C2. For every switch \<open>i\<close> with no transition pending: let a first cycle, read at
  clock \<open>t0\<close>, sample a level \<open>r\<close> that differs from the stable level, let every later cycle
  sample \<open>r\<close> again, and let the last of them be read at a clock \<open>tn\<close> with at least
  \<open>DEBOUNCE_MS\<close> elapsed since \<open>t0\<close>. Then \<open>r\<close> has become the stable level, and over
  these cycles \<open>onPressed(i)\<close> has been called exactly once if \<open>r\<close> is \<open>LOW\<close> and not at
  all if \<open>r\<close> is \<open>HIGH\<close>.
\<close>

theorem sustained_change_presses_iff_low:
  assumes "wf_state s" and "i < N" and "\<not> debouncing s ! i" and "r \<noteq> lastStable s ! i"
    and "raws0 i = r" and "\<forall>c\<in>set mid. snd c i = r" and "rawsn i = r"
    and "DEBOUNCE_MS \<le> tn - t0"
  shows "presses i ((t0, raws0) # mid @ [(tn, rawsn)]) s = (if r = LOW then 1 else 0)
    \<and> lastStable (run ((t0, raws0) # mid @ [(tn, rawsn)]) s) ! i = r
    \<and> \<not> debouncing (run ((t0, raws0) # mid @ [(tn, rawsn)]) s) ! i"
proof -
  define cs where "cs = (t0, raws0) # mid @ [(tn, rawsn)]"
  define s' where "s' = run cs s"
  have c: "chan s i = (lastStable s ! i, False, lastChangeMs s ! i)"
    using assms(3) by (simp add: chan_def)
  have m: "\<forall>x\<in>set (samples i mid). snd x = r"
    using assms(6) by (simp add: samples_def)
  have "cell_run (samples i cs) (chan s i) = ((r, False, t0), if r = LOW then 1 else 0)"
    unfolding c cs_def using cell_sustained [OF assms(4) m assms(8)]
    by (simp add: samples_simps assms(5,7))
  with run_chan [OF assms(2,1), of cs]
  have after: "chan s' i = (r, False, t0)" and n: "presses i cs s = (if r = LOW then 1 else 0)"
    by (simp_all add: s'_def)
  have "presses i cs s = (if r = LOW then 1 else 0) \<and> lastStable s' ! i = r
    \<and> \<not> debouncing s' ! i"
    using n chan_fields [OF after] by simp
  then show ?thesis
    unfolding s'_def cs_def .
qed

theorem sustained_change_presses_iff_low_witness:
  "wf_state power_on_ready \<and> lastStable power_on_ready ! 0 = HIGH
   \<and> presses 0 [(100, press_only 0), (110, press_only 0), (130, press_only 0)] power_on_ready = 1
   \<and> lastStable (run [(100, press_only 0), (110, press_only 0), (130, press_only 0)]
        power_on_ready) ! 0 = LOW
   \<and> presses 0 [(100, all_released), (110, all_released), (130, all_released)]
        (run [(0, press_only 0), (30, press_only 0)] power_on_ready) = 0"
proof -
  note n = N_pos
  have st: "lastStable power_on_ready ! 0 = HIGH" and db: "\<not> debouncing power_on_ready ! 0"
    using chan_fields [OF power_on_ready_chan [OF n]] by simp_all
  have r: "LOW \<noteq> lastStable power_on_ready ! 0"
    by (simp add: st LOW_def HIGH_def)
  have p: "press_only 0 0 = LOW"
    by (simp add: press_only_def)
  have d: "DEBOUNCE_MS \<le> 130 - 100" and d0: "DEBOUNCE_MS \<le> 30 - 0"
    by (simp_all add: DEBOUNCE_MS_def)
  have a: "presses 0 [(100, press_only 0), (110, press_only 0), (130, press_only 0)] power_on_ready = 1
    \<and> lastStable (run [(100, press_only 0), (110, press_only 0), (130, press_only 0)]
        power_on_ready) ! 0 = LOW"
    using sustained_change_presses_iff_low [where s = power_on_ready and i = 0 and r = LOW
        and ?raws0.0 = "press_only 0" and mid = "[(110, press_only 0)]"
        and rawsn = "press_only 0" and tn = 130 and ?t0.0 = 100]
      power_on_ready_wf n db r p d
    by simp
  let ?s = "run [(0, press_only 0), (30, press_only 0)] power_on_ready"
  have b0: "lastStable ?s ! 0 = LOW \<and> \<not> debouncing ?s ! 0"
    using sustained_change_presses_iff_low [where s = power_on_ready and i = 0 and r = LOW
        and ?raws0.0 = "press_only 0" and mid = "[]"
        and rawsn = "press_only 0" and tn = 30 and ?t0.0 = 0]
      power_on_ready_wf n db r p d0
    by simp
  have wf: "wf_state ?s"
    by (rule run_wf) (rule power_on_ready_wf)
  have r': "HIGH \<noteq> lastStable ?s ! 0"
    using b0 by (simp add: LOW_def HIGH_def)
  have q: "all_released 0 = HIGH"
    by (simp add: all_released_def)
  have b: "presses 0 [(100, all_released), (110, all_released), (130, all_released)] ?s = 0"
    using sustained_change_presses_iff_low [where s = ?s and i = 0 and r = HIGH
        and ?raws0.0 = all_released and mid = "[(110, all_released)]"
        and rawsn = all_released and tn = 130 and ?t0.0 = 100]
      wf n b0 r' q d
    by (simp add: LOW_def HIGH_def)
  show ?thesis
    using a b st power_on_ready_wf by simp
qed

text \<open>
  Claim C3. For every switch \<open>i\<close> with no transition pending: let a first cycle, read at
  clock \<open>t0\<close>, sample a level that differs from the stable level, let the cycles after it
  sample that level again, each with less than \<open>DEBOUNCE_MS\<close> elapsed since \<open>t0\<close>, and let
  a last cycle sample the stable level again. Then \<open>onPressed(i)\<close> has not been called,
  the stable level is what it was and no transition is pending; and the bounce is not
  remembered: whatever cycles follow, the presses of the switch, its stable level and
  its pending flag are those that the same cycles give from the state before the bounce.
\<close>

theorem bounce_is_discarded:
  assumes "wf_state s" and "i < N" and "\<not> debouncing s ! i" and "r \<noteq> lastStable s ! i"
    and "raws0 i = r"
    and "\<forall>c\<in>set mid. snd c i = r \<and> fst c - t0 < DEBOUNCE_MS"
    and "rawsn i = lastStable s ! i"
  shows "presses i ((t0, raws0) # mid @ [(tn, rawsn)]) s = 0
    \<and> lastStable (run ((t0, raws0) # mid @ [(tn, rawsn)]) s) ! i = lastStable s ! i
    \<and> \<not> debouncing (run ((t0, raws0) # mid @ [(tn, rawsn)]) s) ! i
    \<and> (\<forall>more. presses i more (run ((t0, raws0) # mid @ [(tn, rawsn)]) s) = presses i more s
          \<and> lastStable (run more (run ((t0, raws0) # mid @ [(tn, rawsn)]) s)) ! i
              = lastStable (run more s) ! i
          \<and> debouncing (run more (run ((t0, raws0) # mid @ [(tn, rawsn)]) s)) ! i
              = debouncing (run more s) ! i)"
proof -
  define cs where "cs = (t0, raws0) # mid @ [(tn, rawsn)]"
  define s' where "s' = run cs s"
  let ?st = "lastStable s ! i"
  have c: "chan s i = (?st, False, lastChangeMs s ! i)"
    using assms(3) by (simp add: chan_def)
  have m: "\<forall>x\<in>set (samples i mid). snd x = r \<and> fst x - t0 < DEBOUNCE_MS"
    using assms(6) by (simp add: samples_def)
  have "cell_run (samples i cs) (chan s i) = ((?st, False, t0), 0)"
    unfolding c cs_def using cell_bounce [OF assms(4) m]
    by (simp add: samples_simps assms(5,7))
  with run_chan [OF assms(2,1), of cs]
  have after: "chan s' i = (?st, False, t0)" and none: "presses i cs s = 0"
    by (simp_all add: s'_def)
  have wf: "wf_state s'"
    unfolding s'_def using assms(1) by (rule run_wf)
  have later: "presses i more s' = presses i more s
      \<and> lastStable (run more s') ! i = lastStable (run more s) ! i
      \<and> debouncing (run more s') ! i = debouncing (run more s) ! i" for more
  proof -
    let ?xs = "samples i more"
    have a: "chan (run more s') i = fst (cell_run ?xs (?st, False, t0))"
      and pa: "presses i more s' = snd (cell_run ?xs (?st, False, t0))"
      using run_chan [OF assms(2) wf, of more] by (simp_all add: after)
    have b: "chan (run more s) i = fst (cell_run ?xs (?st, False, lastChangeMs s ! i))"
      and pb: "presses i more s = snd (cell_run ?xs (?st, False, lastChangeMs s ! i))"
      using run_chan [OF assms(2,1), of more] by (simp_all add: c)
    show ?thesis
      using cell_run_forgets [of ?xs ?st t0 "lastChangeMs s ! i"]
      by (simp add: chan_proj a b pa pb)
  qed
  have "presses i cs s = 0 \<and> lastStable s' ! i = ?st \<and> \<not> debouncing s' ! i
    \<and> (\<forall>more. presses i more s' = presses i more s
          \<and> lastStable (run more s') ! i = lastStable (run more s) ! i
          \<and> debouncing (run more s') ! i = debouncing (run more s) ! i)"
    using none chan_fields [OF after] later by simp
  then show ?thesis
    unfolding s'_def cs_def .
qed

theorem bounce_is_discarded_witness:
  "wf_state power_on_ready \<and> lastStable power_on_ready ! 0 = HIGH
   \<and> presses 0 [(100, press_only 0), (110, press_only 0), (129, press_only 0), (131, all_released)]
        power_on_ready = 0
   \<and> lastStable (run [(100, press_only 0), (110, press_only 0), (129, press_only 0),
        (131, all_released)] power_on_ready) ! 0 = HIGH
   \<and> \<not> debouncing (run [(100, press_only 0), (110, press_only 0), (129, press_only 0),
        (131, all_released)] power_on_ready) ! 0"
proof -
  note n = N_pos
  have st: "lastStable power_on_ready ! 0 = HIGH" and db: "\<not> debouncing power_on_ready ! 0"
    using chan_fields [OF power_on_ready_chan [OF n]] by simp_all
  have r: "LOW \<noteq> lastStable power_on_ready ! 0"
    by (simp add: st LOW_def HIGH_def)
  have p: "press_only 0 0 = LOW"
    by (simp add: press_only_def)
  have q: "all_released 0 = lastStable power_on_ready ! 0"
    by (simp add: all_released_def st)
  have m: "\<forall>c\<in>set [(110, press_only 0), (129, press_only 0)].
      snd c 0 = LOW \<and> fst c - 100 < DEBOUNCE_MS"
    by (simp add: p DEBOUNCE_MS_def)
  show ?thesis
    using bounce_is_discarded [where s = power_on_ready and i = 0 and r = LOW
        and ?raws0.0 = "press_only 0" and mid = "[(110, press_only 0), (129, press_only 0)]"
        and rawsn = all_released and tn = 131 and ?t0.0 = 100]
      power_on_ready_wf n db r p q m
    by (simp add: st)
qed

text \<open>
  Claim C7. For every switch with a transition pending, a cycle that samples a level
  different from the stable level continues that transition: the debounce step leaves
  \<open>lastChangeMs\<close> as it is, so the timer is not restarted. What the cycle does is decided
  by the comparison of the sample with the stable level and by the elapsed time alone (the
  code keeps no pending level): with \<open>DEBOUNCE_MS\<close> elapsed the sample is committed, with
  a press if it is \<open>LOW\<close>; otherwise the transition stays pending.
\<close>

theorem pending_transition_keeps_start_time:
  assumes "wf_state s" and "i < N" and "debouncing s ! i" and "raws i \<noteq> lastStable s ! i"
  shows "lastChangeMs (fst (debounce now i (raws i) s)) = lastChangeMs s
    \<and> lastChangeMs (loop now raws s) ! i = lastChangeMs s ! i
    \<and> lastStable (loop now raws s) ! i =
        (if DEBOUNCE_MS \<le> now - lastChangeMs s ! i then raws i else lastStable s ! i)
    \<and> debouncing (loop now raws s) ! i = (\<not> DEBOUNCE_MS \<le> now - lastChangeMs s ! i)
    \<and> pressed_in_loop now raws i s =
        (DEBOUNCE_MS \<le> now - lastChangeMs s ! i \<and> raws i = LOW)"
proof -
  have "lastChangeMs (fst (debounce now i (raws i) s)) = lastChangeMs s"
    using assms(3,4) by (simp add: debounce_def)
  then show ?thesis
    by (simp only: loop_pending [where s = s and i = i and raws = raws, OF assms])
qed

theorem pending_transition_keeps_start_time_witness:
  "debouncing (pending_at 0 100) ! 0 \<and> lastStable (pending_at 0 100) ! 0 = HIGH
   \<and> lastChangeMs (pending_at 0 100) ! 0 = 100
   \<and> lastChangeMs (loop 110 (press_only 0) (pending_at 0 100)) ! 0 = 100
   \<and> lastStable (loop 110 (press_only 0) (pending_at 0 100)) ! 0 = HIGH
   \<and> debouncing (loop 110 (press_only 0) (pending_at 0 100)) ! 0
   \<and> lastChangeMs (loop 130 (press_only 0) (pending_at 0 100)) ! 0 = 100
   \<and> lastStable (loop 130 (press_only 0) (pending_at 0 100)) ! 0 = LOW"
proof -
  note f = chan_fields [OF pending_at_chan [OF N_pos, of 100]]
  have r: "press_only 0 0 \<noteq> lastStable (pending_at 0 100) ! 0"
    by (simp add: f press_only_def LOW_def HIGH_def)
  show ?thesis
    using pending_transition_keeps_start_time [where s = "pending_at 0 100" and i = 0
        and raws = "press_only 0" and now = 110]
      pending_transition_keeps_start_time [where s = "pending_at 0 100" and i = 0
        and raws = "press_only 0" and now = 130]
      pending_at_wf [of 0 100] N_pos r f
    by (simp add: DEBOUNCE_MS_def press_only_def)
qed

text \<open>
  Claim C10. The elapsed-time test subtracts in \<open>uint32_t\<close>. For every switch with a
  transition pending whose start was stored when the millisecond count was \<open>t0\<close>, in a
  cycle that reads the clock \<open>e\<close> milliseconds later with \<open>e\<close> below \<open>2^32\<close>, the difference
  computed is \<open>e\<close> itself, also when the 32-bit clock has wrapped around in between: the
  test succeeds, and the sample is committed, exactly when \<open>e\<close> is at least 30.
\<close>

theorem elapsed_test_survives_clock_wrap:
  assumes "wf_state s" and "i < N" and "debouncing s ! i" and "raws i \<noteq> lastStable s ! i"
    and "lastChangeMs s ! i = of_nat t0" and "e < 2 ^ 32"
  shows "unat (of_nat (t0 + e) - lastChangeMs s ! i) = e
    \<and> (DEBOUNCE_MS \<le> of_nat (t0 + e) - lastChangeMs s ! i \<longleftrightarrow> 30 \<le> e)
    \<and> (lastStable (loop (of_nat (t0 + e)) raws s) ! i = raws i \<longleftrightarrow> 30 \<le> e)
    \<and> (pressed_in_loop (of_nat (t0 + e)) raws i s \<longleftrightarrow> 30 \<le> e \<and> raws i = LOW)"
proof -
  let ?d = "(of_nat (t0 + e) :: u32) - lastChangeMs s ! i"
  have u: "unat ?d = e"
    using elapsed_wraps [OF assms(6), of t0] by (simp add: assms(5))
  have t: "DEBOUNCE_MS \<le> ?d \<longleftrightarrow> 30 \<le> e"
    unfolding word_le_nat_alt [of DEBOUNCE_MS ?d] u by (simp add: DEBOUNCE_MS_def)
  note l = loop_pending(1) [where s = s and i = i and raws = raws and now = "of_nat (t0 + e)",
      OF assms(1-4)]
  note p = loop_pending(4) [where s = s and i = i and raws = raws and now = "of_nat (t0 + e)",
      OF assms(1-4)]
  show ?thesis
    using u t assms(4) unfolding l p by auto
qed

theorem elapsed_test_survives_clock_wrap_witness:
  "debouncing (pending_at 0 0xFFFFFFFA) ! 0
   \<and> lastChangeMs (pending_at 0 0xFFFFFFFA) ! 0 = of_nat 4294967290
   \<and> (of_nat (4294967290 + 40) :: u32) = 34
   \<and> unat ((34 :: u32) - lastChangeMs (pending_at 0 0xFFFFFFFA) ! 0) = 40
   \<and> lastStable (loop 34 (press_only 0) (pending_at 0 0xFFFFFFFA)) ! 0 = LOW
   \<and> pressed_in_loop 34 (press_only 0) 0 (pending_at 0 0xFFFFFFFA)"
proof -
  note f = chan_fields [OF pending_at_chan [OF N_pos, of "0xFFFFFFFA"]]
  have r: "press_only 0 0 \<noteq> lastStable (pending_at 0 0xFFFFFFFA) ! 0"
    by (simp add: f press_only_def LOW_def HIGH_def)
  have t: "lastChangeMs (pending_at 0 0xFFFFFFFA) ! 0 = of_nat 4294967290"
    by (simp add: f)
  have e: "(40 :: nat) < 2 ^ 32"
    by simp
  have w: "(of_nat (4294967290 + 40) :: u32) = 34"
    by simp
  show ?thesis
    using elapsed_test_survives_clock_wrap [where s = "pending_at 0 0xFFFFFFFA" and i = 0
        and raws = "press_only 0" and ?t0.0 = 4294967290 and e = 40]
      pending_at_wf [of 0 "0xFFFFFFFA"] N_pos r f t e
    unfolding w
    by (simp add: press_only_def)
qed

section \<open>Whole runs\<close>

text \<open>
  Presses of the other switches between two presses of the facing toggle do not disturb
  the facing direction.
\<close>

lemma other_press_keeps_facing:
  "idx \<noteq> BTN_TOGGLE_FACE \<Longrightarrow> facingRight (onPressed idx s) = facingRight s"
  by (simp add: onPressed_def cmd_hadouken_eq cmd_shoryu_eq cmd_tatsu_eq)

lemma other_presses_keep_facing:
  "BTN_TOGGLE_FACE \<notin> set idxs \<Longrightarrow> facingRight (fold onPressed idxs s) = facingRight s"
  by (induction idxs arbitrary: s) (simp_all add: other_press_keeps_facing)

lemma toggles_around_other_presses:
  assumes "BTN_TOGGLE_FACE \<notin> set idxs"
  shows "facingRight (onPressed BTN_TOGGLE_FACE (fold onPressed idxs (onPressed BTN_TOGGLE_FACE s)))
    = facingRight s"
  using other_presses_keep_facing [OF assms, of "onPressed BTN_TOGGLE_FACE s"]
  by (simp add: onPressed_def btn_defs)

text \<open>
  From power-on with a ready transport: switch 0 held down over the debounce window sends
  the quarter-circle-forward sequence once, and nothing more while it stays down or when
  it is released; after a press of the facing toggle the sequence is the mirrored one.
\<close>

lemma press_switch_0_end_to_end:
  "out (run [(100, press_only 0), (115, press_only 0), (130, press_only 0), (131, press_only 0),
             (300, all_released), (330, all_released)] power_on_ready)
     = spec_qcf_sequence KEY_RIGHT LP"
  by code_simp

lemma press_toggle_then_switch_0_end_to_end:
  "out (run [(100, press_only 3), (130, press_only 3), (200, all_released), (230, all_released),
             (300, press_only 0), (330, press_only 0)] power_on_ready)
     = spec_qcf_sequence KEY_LEFT LP"
  by code_simp

end
